theory Spec2Isabelle
  imports
    Main
    "HOL-Library.Word"
    "HOL-Library.Multiset"
    "HOL-Library.Char_ord"
    "HOL-Library.List_Lexorder"
    "HOL-Library.Monad_Syntax"
begin

section \<open>Word statistics: the records and their order\<close>

text \<open>
  \<^verbatim>\<open>struct StatsData { std::string word; uint64_t count; ... }\<close> of
  \<^verbatim>\<open>words_stat.cpp\<close>. A \<^verbatim>\<open>std::string\<close> is a sequence of bytes, compared
  lexicographically by unsigned byte value; \<^typ>\<open>string\<close> with the orders of
  \<open>Char_ord\<close> and \<open>List_Lexorder\<close> is exactly that. The count is an unsigned 64-bit
  integer.
\<close>

record StatsData =
  word :: string
  count :: "64 word"

text \<open>
  \<^verbatim>\<open>StatsData::operator<\<close> (lines 39-42): descending counts, ascending words.
\<close>

definition operator_less :: "StatsData \<Rightarrow> StatsData \<Rightarrow> bool" where
  "operator_less a b \<longleftrightarrow>
     (count a > count b) \<or> ((count a = count b) \<and> (word a < word b))"

section \<open>The library algorithms the sorter calls\<close>

text \<open>
  \<^verbatim>\<open>std::sort(begin, end)\<close> sorts a range in place under \<^verbatim>\<open>operator<\<close>. The standard
  fixes its result only up to the order of equivalent elements; under
  \<^const>\<open>operator_less\<close> two records are equivalent only when they are equal, so the result
  is the one sorted arrangement of the range (lemma \<open>std_sort_unique\<close> below) and an
  insertion sort computes it.
\<close>

fun insert_sorted :: "StatsData \<Rightarrow> StatsData list \<Rightarrow> StatsData list" where
  "insert_sorted x [] = [x]"
| "insert_sorted x (y # ys) =
     (if operator_less x y then x # y # ys else y # insert_sorted x ys)"

definition std_sort :: "StatsData list \<Rightarrow> StatsData list" where
  "std_sort xs = foldr insert_sorted xs []"

text \<open>
  \<^verbatim>\<open>std::inplace_merge(begin, mid, end)\<close> merges the two consecutive sorted ranges
  \<^verbatim>\<open>[begin, mid)\<close> and \<^verbatim>\<open>[mid, end)\<close>; it is stable, so an element of the second range
  goes first only when it is strictly less than the head of the first.
\<close>

fun inplace_merge :: "StatsData list \<Rightarrow> StatsData list \<Rightarrow> StatsData list" where
  "inplace_merge [] rs = rs"
| "inplace_merge ls [] = ls"
| "inplace_merge (l # ls) (r # rs) =
     (if operator_less r l then r # inplace_merge (l # ls) rs
      else l # inplace_merge ls (r # rs))"

section \<open>The parallel merge sort\<close>

text \<open>
  The default argument of \<^verbatim>\<open>ParallelMergeSort\<close> (line 47):
  \<^verbatim>\<open>unsigned int N = std::thread::hardware_concurrency() / 2\<close>, as a function of the
  value \<open>p\<close> that \<^verbatim>\<open>hardware_concurrency()\<close> returns.
\<close>

definition initial_budget :: "32 word \<Rightarrow> 32 word" where
  "initial_budget p = p div 2"

text \<open>The test of line 49, on the segment's length and the budget.\<close>

definition sequential_case :: "nat \<Rightarrow> 32 word \<Rightarrow> bool" where
  "sequential_case len N \<longleftrightarrow> len \<le> 1024 \<or> N < 2"

text \<open>
  \<^verbatim>\<open>ParallelMergeSort(begin, end, N)\<close> (lines 45-59). The segment \<^verbatim>\<open>[begin, end)\<close> is the
  list \<open>xs\<close> and the result is the segment's content on return. The task started with
  \<^verbatim>\<open>std::async\<close> works on \<^verbatim>\<open>[begin, mid)\<close>, the caller on \<^verbatim>\<open>[mid, end)\<close>, and the merge
  runs after \<^verbatim>\<open>wait()\<close>: the two halves are computed independently and then merged. A call
  that does not return has the value \<open>None\<close>.
\<close>

partial_function (option) ParallelMergeSort ::
  "StatsData list \<Rightarrow> 32 word \<Rightarrow> StatsData list option" where
  "ParallelMergeSort xs N =
     (let len = length xs in
      if sequential_case len N then Some (std_sort xs)
      else
        let mid = len div 2 in
        Option.bind (ParallelMergeSort (take mid xs) (N - 2)) (\<lambda>left.
        Option.bind (ParallelMergeSort (drop mid xs) (N - 2)) (\<lambda>right.
        Some (inplace_merge left right))))"

section \<open>Reading and counting\<close>

text \<open>
  \<^verbatim>\<open>std::isalpha\<close> and \<^verbatim>\<open>std::tolower\<close> in the "C" locale (the program never calls
  \<^verbatim>\<open>setlocale\<close>): the letters are the 52 ASCII letters, no byte above 127 is a
  letter, and only the upper-case letters change.
\<close>

definition isalpha :: "char \<Rightarrow> bool" where
  "isalpha ch \<longleftrightarrow>
     (CHR ''A'' \<le> ch \<and> ch \<le> CHR ''Z'') \<or> (CHR ''a'' \<le> ch \<and> ch \<le> CHR ''z'')"

definition tolower :: "char \<Rightarrow> char" where
  "tolower ch =
     (if CHR ''A'' \<le> ch \<and> ch \<le> CHR ''Z'' then char_of (of_char ch + (32 :: nat)) else ch)"

text \<open>
  \<^verbatim>\<open>std::unordered_map<std::string, uint64_t>\<close>: at most one count per word.
  \<^verbatim>\<open>words_to_stat_count[w] += 1\<close> inserts a zero count for a new word and then adds one,
  in 64-bit unsigned arithmetic.
\<close>

type_synonym table = "string \<rightharpoonup> 64 word"

definition increment :: "table \<Rightarrow> string \<Rightarrow> table" where
  "increment m w = m(w \<mapsto> (case m w of None \<Rightarrow> 0 | Some c \<Rightarrow> c) + 1)"

text \<open>
  The body of the reading loop (lines 78-85), on the pair of the word being collected
  (\<^verbatim>\<open>current_word_stream\<close>) and the table.
\<close>

definition read_char :: "char \<Rightarrow> string \<times> table \<Rightarrow> string \<times> table" where
  "read_char ch s =
     (case s of (current_word, m) \<Rightarrow>
        if isalpha ch then (current_word @ [tolower ch], m)
        else ([], if current_word \<noteq> [] then increment m current_word else m))"

text \<open>
  Lines 72-100 on the bytes that \<^verbatim>\<open>in_file.get(ch)\<close> delivers before it first returns
  false: the loop, then the word still being collected.
\<close>

definition count_stream :: "string \<Rightarrow> table" where
  "count_stream bytes =
     (case fold read_char bytes ([], Map.empty) of (current_word, m) \<Rightarrow>
        if current_word \<noteq> [] then increment m current_word else m)"

text \<open>
  What opening a path for reading gives. A stream that was opened delivers some bytes and
  then \<^verbatim>\<open>get\<close> returns false, at the end of the file or at a read error (a directory
  opens and then fails to read, for instance). The exception mask of the stream is never
  changed from its default, so neither \<^verbatim>\<open>get\<close> nor \<^verbatim>\<open>operator<<\<close> throws on a stream
  failure: the handlers of lines 87-92 and 132-137 are not reached by one, and the loop of
  line 77 ends the same way in both cases. The only exceptions of a run are the two
  \<^verbatim>\<open>std::runtime_error\<close>s of lines 68 and 125; running out of memory is not modelled.
\<close>

datatype stream_end = EndOfFile | ReadError

datatype input_file = NoInput | Input string stream_end

datatype exn = runtime_error string

definition newline :: char where
  "newline = CHR 0x0A"

text \<open>
  \<^verbatim>\<open>ReadFileAndCountStats\<close> (lines 61-101): what it writes to \<^verbatim>\<open>std::cerr\<close>, and the
  exception it throws or the table it returns.
\<close>

definition ReadFileAndCountStats ::
  "(string \<Rightarrow> input_file) \<Rightarrow> string \<Rightarrow> string \<times> (exn + table)" where
  "ReadFileAndCountStats open_in input_filename =
     (case open_in input_filename of
        NoInput \<Rightarrow>
          (let error_msg = ''can't open input file for reading, filename: '' @ input_filename
           in (error_msg @ [newline], Inl (runtime_error error_msg)))
      | Input bytes _ \<Rightarrow> ([], Inr (count_stream bytes)))"

section \<open>Converting and sorting\<close>

text \<open>
  \<^verbatim>\<open>ConvertAndSortStats\<close> (lines 103-116). The loop of line 108 visits the entries of the
  hash table in an order the table's implementation chooses; the list \<open>iteration\<close> is
  that order of the keys, and \<open>iterates\<close> says that it visits every entry once. The
  sorter is called with its default budget, computed from the hardware parallelism \<open>p\<close>.
\<close>

definition iterates :: "string list \<Rightarrow> table \<Rightarrow> bool" where
  "iterates iteration m \<longleftrightarrow> distinct iteration \<and> set iteration = dom m"

definition flatten :: "string list \<Rightarrow> table \<Rightarrow> StatsData list" where
  "flatten iteration m =
     List.map_filter (\<lambda>w. map_option (\<lambda>c. \<lparr>word = w, count = c\<rparr>) (m w)) iteration"

definition ConvertAndSortStats ::
  "string list \<Rightarrow> 32 word \<Rightarrow> table \<Rightarrow> StatsData list option" where
  "ConvertAndSortStats iteration p words_to_stat_count =
     ParallelMergeSort (flatten iteration words_to_stat_count) (initial_budget p)"

section \<open>Writing\<close>

text \<open>\<^verbatim>\<open>out_file << stat.count\<close> writes the count in decimal.\<close>

fun decimal :: "nat \<Rightarrow> string" where
  "decimal n =
     (if n < 10 then [char_of (48 + n)]
      else decimal (n div 10) @ [char_of (48 + n mod 10)])"

definition line :: "StatsData \<Rightarrow> string" where
  "line stat = word stat @ '' '' @ decimal (unat (count stat)) @ [newline]"

text \<open>
  What opening a path for writing gives: nothing, or a file that takes the bytes written
  to it, all of them or only the first \<open>n\<close> (a full disk). A write that fails sets the
  stream's state and throws nothing.
\<close>

datatype output_file = NoOutput | Output "nat option"

text \<open>
  \<^verbatim>\<open>WriteStatsToFile\<close> (lines 118-140): what it writes to \<^verbatim>\<open>std::cerr\<close>, and the
  exception it throws or the content the file ends with.
\<close>

definition WriteStatsToFile ::
  "(string \<Rightarrow> output_file) \<Rightarrow> StatsData list \<Rightarrow> string \<Rightarrow> string \<times> (exn + string)" where
  "WriteStatsToFile open_out stats output_filename =
     (case open_out output_filename of
        NoOutput \<Rightarrow>
          (let error_msg = ''can't open output file for writing, filename: '' @ output_filename
           in (error_msg @ [newline], Inl (runtime_error error_msg)))
      | Output limit \<Rightarrow>
          (let text = concat (map line stats)
           in ([], Inr (case limit of None \<Rightarrow> text | Some n \<Rightarrow> take n text))))"

section \<open>The program\<close>

text \<open>
  The surroundings of a run: the command line (\<^verbatim>\<open>argc\<close> is its length), the two file
  systems views, the hardware parallelism and the iteration order of the hash table.
\<close>

record env =
  argv :: "string list"
  open_in :: "string \<Rightarrow> input_file"
  open_out :: "string \<Rightarrow> output_file"
  hardware_concurrency :: "32 word"
  iteration :: "string list"

text \<open>
  What a run leaves: the exit status, the bytes on \<^verbatim>\<open>std::cerr\<close>, the phases that
  \<^verbatim>\<open>TimeLogger::LogTime\<close> reported on \<^verbatim>\<open>std::cout\<close> (the elapsed times are not
  modelled), and the content of the output file when the run opened it.
\<close>

record outcome =
  exit_status :: int
  cerr :: string
  logged :: "string list"
  written :: "string option"

text \<open>\<^verbatim>\<open>main\<close> (lines 144-177). \<open>None\<close>: the sorter does not return.\<close>

definition main :: "env \<Rightarrow> outcome option" where
  "main e =
     (if int (length (argv e)) \<noteq> 3 then
        Some \<lparr>exit_status = 0, cerr = ''usage: ./freq <fromfile> <tofile>'' @ [newline],
              logged = [], written = None\<rparr>
      else
        case ReadFileAndCountStats (open_in e) (argv e ! 1) of
          (err, Inl _) \<Rightarrow>
            Some \<lparr>exit_status = 0, cerr = err, logged = [], written = None\<rparr>
        | (err, Inr words_to_stat_count) \<Rightarrow>
            Option.bind
              (ConvertAndSortStats (iteration e) (hardware_concurrency e) words_to_stat_count)
              (\<lambda>stats.
                 case WriteStatsToFile (open_out e) stats (argv e ! 2) of
                   (err', Inl _) \<Rightarrow>
                     Some \<lparr>exit_status = 0, cerr = err @ err',
                           logged = [''read and count stats'', ''sort stats''],
                           written = None\<rparr>
                 | (err', Inr content) \<Rightarrow>
                     Some \<lparr>exit_status = 0, cerr = err @ err',
                           logged = [''read and count stats'', ''sort stats'', ''write stats''],
                           written = Some content\<rparr>))"

section \<open>The specification's words\<close>

text \<open>
  The specification's tokens: the maximal runs of alphabetic bytes of the input, from left
  to right, each folded to lower case.
\<close>

function spec_tokens :: "string \<Rightarrow> string list" where
  "spec_tokens [] = []"
| "spec_tokens (c # cs) =
     (if isalpha c
      then map tolower (takeWhile isalpha (c # cs)) # spec_tokens (dropWhile isalpha cs)
      else spec_tokens cs)"
  by pat_completeness auto
termination
  by (relation "measure length") (auto simp: le_imp_less_Suc length_dropWhile_le)

text \<open>
  The specification's order on adjacent output records: a larger count first, and for
  equal counts the words ascending.
\<close>

definition spec_ordered :: "StatsData \<Rightarrow> StatsData \<Rightarrow> bool" where
  "spec_ordered A B \<longleftrightarrow>
     count A > count B \<or> (count A = count B \<and> word A \<le> word B)"

section \<open>Supporting lemmas\<close>

subsection \<open>The order of the records\<close>

text \<open>
  \<^const>\<open>spec_ordered\<close> is the negation of the converse of \<^verbatim>\<open>operator<\<close>; it is
  transitive, antisymmetric and total, so a list of records has one sorted arrangement.
\<close>

lemma spec_ordered_iff: "spec_ordered a b \<longleftrightarrow> \<not> operator_less b a"
  by (auto simp: spec_ordered_def operator_less_def)

lemma spec_ordered_trans: "spec_ordered a b \<Longrightarrow> spec_ordered b c \<Longrightarrow> spec_ordered a c"
  by (auto simp: spec_ordered_def)

lemma spec_ordered_antisym: "spec_ordered a b \<Longrightarrow> spec_ordered b a \<Longrightarrow> a = b"
  by (auto simp: spec_ordered_def)

lemma spec_ordered_total: "spec_ordered a b \<or> spec_ordered b a"
  by (auto simp: spec_ordered_def)

lemma mset_insert_sorted: "mset (insert_sorted x ys) = add_mset x (mset ys)"
  by (induction ys) auto

lemma set_insert_sorted: "set (insert_sorted x ys) = insert x (set ys)"
  by (induction ys) auto

lemma sorted_insert_sorted:
  "sorted_wrt spec_ordered ys \<Longrightarrow> sorted_wrt spec_ordered (insert_sorted x ys)"
proof (induction ys)
  case Nil
  then show ?case by simp
next
  case (Cons y ys)
  show ?case
  proof (cases "operator_less x y")
    case True
    then have xy: "spec_ordered x y"
      by (auto simp: spec_ordered_def operator_less_def)
    have "\<forall>z\<in>set ys. spec_ordered x z"
      using Cons.prems xy by (auto intro: spec_ordered_trans)
    with True xy Cons.prems show ?thesis by simp
  next
    case False
    then have "spec_ordered y x" by (simp add: spec_ordered_iff)
    with False Cons show ?thesis by (auto simp: set_insert_sorted)
  qed
qed

lemma mset_std_sort: "mset (std_sort xs) = mset xs"
  by (induction xs) (simp_all add: std_sort_def mset_insert_sorted)

lemma sorted_std_sort: "sorted_wrt spec_ordered (std_sort xs)"
  by (induction xs) (simp_all add: std_sort_def sorted_insert_sorted)

lemma sorted_unique:
  "sorted_wrt spec_ordered xs \<Longrightarrow> sorted_wrt spec_ordered ys \<Longrightarrow> mset xs = mset ys \<Longrightarrow> xs = ys"
proof (induction xs arbitrary: ys)
  case Nil
  then show ?case by simp
next
  case (Cons x xs)
  from Cons.prems(3) obtain y ys' where ys: "ys = y # ys'"
    by (cases ys) auto
  have "x \<in> set ys" using Cons.prems(3) by (metis list.set_intros(1) set_mset_mset)
  then have yx: "spec_ordered y x"
    using Cons.prems(2) ys by (auto simp: spec_ordered_def)
  have "y \<in> set (x # xs)" using Cons.prems(3) ys by (metis list.set_intros(1) set_mset_mset)
  then have xy: "spec_ordered x y"
    using Cons.prems(1) by (auto simp: spec_ordered_def)
  from xy yx have eq: "x = y" by (rule spec_ordered_antisym)
  with Cons.prems ys have "xs = ys'"
    by (intro Cons.IH) auto
  with eq ys show ?case by simp
qed

lemma std_sort_unique:
  "sorted_wrt spec_ordered ys \<Longrightarrow> mset ys = mset xs \<Longrightarrow> ys = std_sort xs"
  by (rule sorted_unique) (simp_all add: sorted_std_sort mset_std_sort)

lemma mset_inplace_merge: "mset (inplace_merge ls rs) = mset ls + mset rs"
  by (induction ls rs rule: inplace_merge.induct) auto

lemma set_inplace_merge: "set (inplace_merge ls rs) = set ls \<union> set rs"
  by (induction ls rs rule: inplace_merge.induct) auto

lemma sorted_inplace_merge:
  "sorted_wrt spec_ordered ls \<Longrightarrow> sorted_wrt spec_ordered rs \<Longrightarrow>
   sorted_wrt spec_ordered (inplace_merge ls rs)"
proof (induction ls rs rule: inplace_merge.induct)
  case (3 l ls r rs)
  show ?case
  proof (cases "operator_less r l")
    case True
    then have rl: "spec_ordered r l"
      by (auto simp: spec_ordered_def operator_less_def)
    have "\<forall>z\<in>set (l # ls) \<union> set rs. spec_ordered r z"
      using "3.prems" rl by (auto intro: spec_ordered_trans)
    with True 3 show ?thesis by (simp add: set_inplace_merge)
  next
    case False
    then have lr: "spec_ordered l r" by (simp add: spec_ordered_iff)
    have "\<forall>z\<in>set ls \<union> set (r # rs). spec_ordered l z"
      using "3.prems" lr by (auto intro: spec_ordered_trans)
    with False 3 show ?thesis by (simp add: set_inplace_merge)
  qed
qed simp_all

lemma inplace_merge_std_sort:
  "inplace_merge (std_sort ls) (std_sort rs) = std_sort (ls @ rs)"
  by (rule std_sort_unique)
     (simp_all add: sorted_inplace_merge sorted_std_sort mset_inplace_merge mset_std_sort)

lemma ParallelMergeSort_std_sort: "ParallelMergeSort xs N = Some (std_sort xs)"
proof (induction "length xs" arbitrary: xs N rule: less_induct)
  case less
  show ?case
  proof (cases "sequential_case (length xs) N")
    case True
    then show ?thesis by (subst ParallelMergeSort.simps) simp
  next
    case False
    then have len: "1024 < length xs" by (simp add: sequential_case_def)
    have l: "ParallelMergeSort (take (length xs div 2) xs) (N - 2)
             = Some (std_sort (take (length xs div 2) xs))"
      using len by (intro less) simp
    have r: "ParallelMergeSort (drop (length xs div 2) xs) (N - 2)
             = Some (std_sort (drop (length xs div 2) xs))"
      using len by (intro less) simp
    show ?thesis
      using False by (subst ParallelMergeSort.simps) (simp add: l r inplace_merge_std_sort)
  qed
qed

lemma not_less_is_spec_ordered: "(\<lambda>a b. \<not> operator_less b a) = spec_ordered"
  by (intro ext) (simp add: spec_ordered_iff)

subsection \<open>The reading loop and the maximal alphabetic runs\<close>

lemma spec_tokens_split:
  "spec_tokens cs =
     (if takeWhile isalpha cs = [] then [] else [map tolower (takeWhile isalpha cs)])
     @ spec_tokens (dropWhile isalpha cs)"
  by (cases cs) auto

lemma fold_read_char:
  "(case fold read_char bs (cur, m) of (current_word, m') \<Rightarrow>
      if current_word \<noteq> [] then increment m' current_word else m')
   = fold (\<lambda>w m. increment m w)
       ((if cur @ map tolower (takeWhile isalpha bs) = [] then []
         else [cur @ map tolower (takeWhile isalpha bs)])
        @ spec_tokens (dropWhile isalpha bs)) m"
proof (induction bs arbitrary: cur m)
  case Nil
  then show ?case by simp
next
  case (Cons c cs)
  show ?case
  proof (cases "isalpha c")
    case True
    then show ?thesis
      using Cons.IH [of "cur @ [tolower c]" m] by (simp add: read_char_def)
  next
    case False
    have "spec_tokens (c # cs) = spec_tokens cs" using False by simp
    also have "\<dots> = (if takeWhile isalpha cs = [] then [] else [map tolower (takeWhile isalpha cs)])
     @ spec_tokens (dropWhile isalpha cs)" by (rule spec_tokens_split)
    finally have st: "spec_tokens (c # cs) = (if takeWhile isalpha cs = [] then [] else [map tolower (takeWhile isalpha cs)])
     @ spec_tokens (dropWhile isalpha cs)" .
    show ?thesis
      using False Cons.IH [of "[]" "if cur \<noteq> [] then increment m cur else m"]
      by (simp add: read_char_def st del: spec_tokens.simps)
  qed
qed

lemma count_stream_spec_tokens:
  "count_stream bytes = fold (\<lambda>w m. increment m w) (spec_tokens bytes) Map.empty"
  unfolding count_stream_def
  by (subst fold_read_char) (simp add: spec_tokens_split [of bytes])

lemma fold_increment:
  "fold (\<lambda>w m. increment m w) ws m w =
     (if count_list ws w = 0 then m w
      else Some ((case m w of None \<Rightarrow> 0 | Some c \<Rightarrow> c) + of_nat (count_list ws w)))"
  by (induction ws arbitrary: m) (auto simp: increment_def)

lemma count_stream_lookup:
  "count_stream bytes w =
     (if count_list (spec_tokens bytes) w = 0 then None
      else Some (of_nat (count_list (spec_tokens bytes) w)))"
  by (simp add: count_stream_spec_tokens fold_increment)

lemma dom_count_stream: "dom (count_stream bytes) = set (spec_tokens bytes)"
  by (auto simp: dom_def count_stream_lookup count_list_0_iff)

lemma length_spec_tokens: "length (spec_tokens bytes) \<le> length bytes"
proof (induction bytes rule: spec_tokens.induct)
  case 1
  then show ?case by simp
next
  case (2 c cs)
  have "length (dropWhile isalpha cs) \<le> length cs" by (rule length_dropWhile_le)
  with 2 show ?case by auto
qed

subsection \<open>Flattening and sorting the table\<close>

lemma std_sort_mset_cong: "mset xs = mset ys \<Longrightarrow> std_sort xs = std_sort ys"
  by (rule std_sort_unique) (simp_all add: sorted_std_sort mset_std_sort)

lemma flatten_map:
  "set ks \<subseteq> dom m \<Longrightarrow> flatten ks m = map (\<lambda>w. \<lparr>word = w, count = the (m w)\<rparr>) ks"
  by (induction ks) (auto simp: flatten_def map_filter_simps)

lemma mset_flatten:
  assumes "iterates ks m" and "iterates ks' m"
  shows "mset (flatten ks m) = mset (flatten ks' m)"
proof -
  have "distinct ks" and "distinct ks'" and "set ks = set ks'"
    using assms by (simp_all add: iterates_def)
  then have "mset ks = mset ks'"
    by (simp add: set_eq_iff_mset_eq_distinct)
  then have "mset (map (\<lambda>w. \<lparr>word = w, count = the (m w)\<rparr>) ks)
           = mset (map (\<lambda>w. \<lparr>word = w, count = the (m w)\<rparr>) ks')"
    by simp
  then show ?thesis
    using assms by (simp add: iterates_def flatten_map)
qed

lemma ConvertAndSortStats_std_sort:
  "ConvertAndSortStats ks p m = Some (std_sort (flatten ks m))"
  by (simp add: ConvertAndSortStats_def ParallelMergeSort_std_sort)

lemma ConvertAndSortStats_iteration:
  "iterates ks m \<Longrightarrow> iterates ks' m \<Longrightarrow> ConvertAndSortStats ks p m = ConvertAndSortStats ks' p' m"
  using std_sort_mset_cong [OF mset_flatten, of ks m ks']
  by (simp add: ConvertAndSortStats_std_sort)

lemma sum_list_std_sort:
  fixes f :: "StatsData \<Rightarrow> nat"
  shows "sum_list (map f (std_sort xs)) = sum_list (map f xs)"
proof -
  have "sum_mset (mset (map f (std_sort xs))) = sum_mset (mset (map f xs))"
    by (simp add: mset_std_sort)
  then show ?thesis by (simp only: sum_mset_sum_list)
qed

lemma length_std_sort: "length (std_sort xs) = length xs"
  using arg_cong [OF mset_std_sort, of size xs] by simp

lemma unat_count_stream:
  assumes "length bytes < 2 ^ 64" and "count_stream bytes w = Some c"
  shows "unat c = count_list (spec_tokens bytes) w"
proof -
  have "count_list (spec_tokens bytes) w \<le> length (spec_tokens bytes)"
    by (rule count_le_length)
  also have "\<dots> \<le> length bytes" by (rule length_spec_tokens)
  finally have "count_list (spec_tokens bytes) w < 2 ^ 64" using assms(1) by simp
  then have "unat (of_nat (count_list (spec_tokens bytes) w) :: 64 word)
             = count_list (spec_tokens bytes) w"
    by (simp add: unat_of_nat)
  with assms(2) show ?thesis
    by (auto simp: count_stream_lookup split: if_splits)
qed

subsection \<open>The program on concrete inputs, and its exit status\<close>

lemma tokens_the_cat:
  "spec_tokens ''The cat sat. The CAT sat!'' = [''the'', ''cat'', ''sat'', ''the'', ''cat'', ''sat'']"
  by code_simp

lemma table_the_cat:
  "count_stream ''The cat sat. The CAT sat!'' = [''the'' \<mapsto> 2, ''cat'' \<mapsto> 2, ''sat'' \<mapsto> 2]"
  unfolding count_stream_spec_tokens tokens_the_cat
  by (rule ext) (simp add: increment_def)

lemma sorted_the_cat:
  assumes "iterates ks [''the'' \<mapsto> 2, ''cat'' \<mapsto> 2, ''sat'' \<mapsto> 2]"
  shows "ConvertAndSortStats ks p [''the'' \<mapsto> 2, ''cat'' \<mapsto> 2, ''sat'' \<mapsto> 2]
         = Some [\<lparr>word = ''cat'', count = 2\<rparr>, \<lparr>word = ''sat'', count = 2\<rparr>,
                 \<lparr>word = ''the'', count = 2\<rparr>]"
proof -
  let ?m = "[''the'' \<mapsto> 2 :: 64 word, ''cat'' \<mapsto> 2, ''sat'' \<mapsto> 2]"
  have "iterates [''the'', ''cat'', ''sat''] ?m"
    by (auto simp: iterates_def)
  from ConvertAndSortStats_iteration [OF assms this, of p p]
  show ?thesis
    by (simp add: ConvertAndSortStats_std_sort flatten_def map_filter_simps std_sort_def
        operator_less_def less_char_def)
qed

lemma main_returns_zero: "\<exists>r. main e = Some r \<and> exit_status r = 0"
  by (simp add: main_def ConvertAndSortStats_std_sort split: prod.split sum.split)

lemma main_usage_diagnostic:
  "length (argv e) \<noteq> 3 \<Longrightarrow> \<exists>r. main e = Some r \<and> exit_status r = 0 \<and> cerr r \<noteq> [] \<and> written r = None"
  by (simp add: main_def)

lemma main_input_diagnostic:
  "length (argv e) = 3 \<Longrightarrow> open_in e (argv e ! 1) = NoInput \<Longrightarrow>
   \<exists>r. main e = Some r \<and> exit_status r = 0 \<and> cerr r \<noteq> [] \<and> written r = None"
  by (simp add: main_def ReadFileAndCountStats_def)

lemma main_output_diagnostic:
  "length (argv e) = 3 \<Longrightarrow> open_in e (argv e ! 1) = Input bytes se \<Longrightarrow>
   open_out e (argv e ! 2) = NoOutput \<Longrightarrow>
   \<exists>r. main e = Some r \<and> exit_status r = 0 \<and> cerr r \<noteq> [] \<and> written r = None"
  by (simp add: main_def ReadFileAndCountStats_def WriteStatsToFile_def ConvertAndSortStats_std_sort)

lemma tokens_go: "spec_tokens ''Go, go! Stop'' = [''go'', ''go'', ''stop'']"
  by code_simp

section \<open>The claims\<close>

subsection \<open>C1: the output is totally ordered\<close>

text \<open>
  C1. For every input sequence and every budget the sorter returns, and its output is
  ordered end to end: the specification's relation holds between any two positions in
  order, and in particular for every adjacent pair the first has the larger count, or the
  counts are equal and the first word is not greater than the second.
\<close>

theorem ParallelMergeSort_totally_ordered:
  "\<exists>ys. ParallelMergeSort xs N = Some ys \<and>
        sorted_wrt spec_ordered ys \<and>
        (\<forall>i. Suc i < length ys \<longrightarrow>
           count (ys ! i) > count (ys ! Suc i) \<or>
           (count (ys ! i) = count (ys ! Suc i) \<and> word (ys ! i) \<le> word (ys ! Suc i)))"
proof -
  let ?ys = "std_sort xs"
  have s: "sorted_wrt spec_ordered ?ys" by (rule sorted_std_sort)
  have "spec_ordered (?ys ! i) (?ys ! Suc i)" if "Suc i < length ?ys" for i
    using s that by (simp add: sorted_wrt_nth_less)
  then show ?thesis
    using s by (auto simp: ParallelMergeSort_std_sort spec_ordered_def)
qed

text \<open>
  The theorem at three records and budget 4: the output is computed, and its second
  adjacent pair has equal counts and ascending words.
\<close>

theorem ParallelMergeSort_totally_ordered_witness:
  "ParallelMergeSort
     [\<lparr>word = ''the'', count = 2\<rparr>, \<lparr>word = ''cat'', count = 2\<rparr>, \<lparr>word = ''a'', count = 5\<rparr>] 4
   = Some [\<lparr>word = ''a'', count = 5\<rparr>, \<lparr>word = ''cat'', count = 2\<rparr>, \<lparr>word = ''the'', count = 2\<rparr>]
   \<and> Suc 1 < length [\<lparr>word = ''a'', count = 5\<rparr>, \<lparr>word = ''cat'', count = 2\<rparr>, \<lparr>word = ''the'', count = 2\<rparr>]
   \<and> count \<lparr>word = ''cat'', count = 2\<rparr> = count \<lparr>word = ''the'', count = 2\<rparr>
   \<and> word \<lparr>word = ''cat'', count = 2\<rparr> \<le> word \<lparr>word = ''the'', count = 2\<rparr>"
proof -
  let ?xs = "[\<lparr>word = ''the'', count = 2\<rparr>, \<lparr>word = ''cat'', count = 2\<rparr>, \<lparr>word = ''a'', count = 5\<rparr>]"
  let ?ys = "[\<lparr>word = ''a'', count = 5\<rparr>, \<lparr>word = ''cat'', count = 2\<rparr>, \<lparr>word = ''the'', count = 2\<rparr>]"
  have run: "ParallelMergeSort ?xs 4 = Some ?ys"
    by (subst ParallelMergeSort.simps)
       (simp add: sequential_case_def std_sort_def operator_less_def less_char_def)
  from ParallelMergeSort_totally_ordered [of ?xs 4] run
  have "\<forall>i. Suc i < length ?ys \<longrightarrow>
           count (?ys ! i) > count (?ys ! Suc i) \<or>
           (count (?ys ! i) = count (?ys ! Suc i) \<and> word (?ys ! i) \<le> word (?ys ! Suc i))"
    by simp
  from this [rule_format, of 1] run show ?thesis by simp
qed

subsection \<open>C2: one entry per distinct run, with its number of occurrences\<close>

text \<open>
  C2. When the input file opens, the counting phase returns a table whose keys are exactly
  the distinct maximal alphabetic runs of the input, folded to lower case, and the count of
  each is its number of occurrences, as a 64-bit value. The sorted sequence has one record
  per distinct word. For an input shorter than \<open>2 ^ 64\<close> bytes no count wraps around:
  each count is the number of occurrences and the counts add up to the number of runs.
\<close>

theorem counting_phase_counts_runs:
  assumes "fs input_filename = Input bytes e"
    and "iterates ks (count_stream bytes)"
  shows "\<exists>m stats.
      ReadFileAndCountStats fs input_filename = ([], Inr m) \<and>
      dom m = set (spec_tokens bytes) \<and>
      (\<forall>w \<in> set (spec_tokens bytes). m w = Some (of_nat (count_list (spec_tokens bytes) w))) \<and>
      ConvertAndSortStats ks p m = Some stats \<and>
      length stats = card (set (spec_tokens bytes)) \<and>
      (length bytes < 2 ^ 64 \<longrightarrow>
         (\<forall>w \<in> set (spec_tokens bytes).
            \<exists>c. m w = Some c \<and> unat c = count_list (spec_tokens bytes) w) \<and>
         sum_list (map (\<lambda>s. unat (count s)) stats) = length (spec_tokens bytes))"
proof -
  let ?m = "count_stream bytes"
  let ?toks = "spec_tokens bytes"
  have r: "ReadFileAndCountStats fs input_filename = ([], Inr ?m)"
    using assms(1) by (simp add: ReadFileAndCountStats_def)
  have d: "dom ?m = set ?toks" by (rule dom_count_stream)
  have o: "\<forall>w \<in> set ?toks. ?m w = Some (of_nat (count_list ?toks w))"
    by (simp add: count_stream_lookup count_list_0_iff)
  have ks: "distinct ks" "set ks = set ?toks"
    using assms(2) d by (simp_all add: iterates_def)
  have fl: "flatten ks ?m = map (\<lambda>w. \<lparr>word = w, count = the (?m w)\<rparr>) ks"
    using assms(2) by (simp add: flatten_map iterates_def)
  have len: "length (std_sort (flatten ks ?m)) = card (set ?toks)"
    using ks by (simp add: length_std_sort fl distinct_card [symmetric])
  have cs: "ConvertAndSortStats ks p ?m = Some (std_sort (flatten ks ?m))"
    by (rule ConvertAndSortStats_std_sort)
  have big: "(\<forall>w \<in> set ?toks. \<exists>c. ?m w = Some c \<and> unat c = count_list ?toks w) \<and>
      sum_list (map (\<lambda>s. unat (count s)) (std_sort (flatten ks ?m))) = length ?toks"
    if bound: "length bytes < 2 ^ 64"
  proof -
    have c: "\<forall>w \<in> set ?toks. \<exists>c. ?m w = Some c \<and> unat c = count_list ?toks w"
    proof
      fix w assume "w \<in> set ?toks"
      then obtain c where "?m w = Some c" using d by blast
      then show "\<exists>c. ?m w = Some c \<and> unat c = count_list ?toks w"
        using unat_count_stream [OF bound] by blast
    qed
    have "sum_list (map (\<lambda>s. unat (count s)) (flatten ks ?m))
          = sum_list (map (\<lambda>w. unat (the (?m w))) ks)"
      by (simp add: fl comp_def)
    also have "\<dots> = sum_list (map (count_list ?toks) ks)"
      using c ks(2) by (intro arg_cong [where f = sum_list] map_cong) auto
    also have "\<dots> = sum (count_list ?toks) (set ks)"
      using ks(1) by (simp add: sum_list_distinct_conv_sum_set)
    also have "\<dots> = length ?toks"
      using ks(2) by (simp add: sum_count_set)
    finally have "sum_list (map (\<lambda>s. unat (count s)) (std_sort (flatten ks ?m))) = length ?toks"
      by (simp add: sum_list_std_sort)
    with c show ?thesis by (rule conjI)
  qed
  from r d o cs len big show ?thesis by blast
qed

text \<open>
  The theorem at the input \<open>Go, go! Stop\<close>: two distinct words, three runs, and
  \<open>go\<close> counted twice.
\<close>

theorem counting_phase_counts_runs_witness:
  "(\<lambda>_. Input ''Go, go! Stop'' EndOfFile) ''in.txt'' = Input ''Go, go! Stop'' EndOfFile \<and>
   iterates [''stop'', ''go''] (count_stream ''Go, go! Stop'') \<and>
   length ''Go, go! Stop'' < 2 ^ 64 \<and>
   (\<exists>m stats.
      ReadFileAndCountStats (\<lambda>_. Input ''Go, go! Stop'' EndOfFile) ''in.txt'' = ([], Inr m) \<and>
      dom m = {''go'', ''stop''} \<and>
      m ''go'' = Some 2 \<and>
      ConvertAndSortStats [''stop'', ''go''] 8 m = Some stats \<and>
      length stats = 2 \<and>
      sum_list (map (\<lambda>s. unat (count s)) stats) = 3)"
proof -
  let ?B = "''Go, go! Stop''"
  have h1: "length ?B < 2 ^ 64" by simp
  have h2: "(\<lambda>_. Input ?B EndOfFile) ''in.txt'' = Input ?B EndOfFile" by simp
  have h3: "iterates [''stop'', ''go''] (count_stream ?B)"
    unfolding iterates_def dom_count_stream tokens_go by auto
  have c: "card {''go'', ''stop''} = (2 :: nat)" by simp
  have d: "set (spec_tokens ?B) = {''go'', ''stop''}" unfolding tokens_go by simp
  have l: "length (spec_tokens ?B) = 3" unfolding tokens_go by simp
  from counting_phase_counts_runs [where fs = "\<lambda>_. Input ?B EndOfFile"
      and input_filename = "''in.txt''" and bytes = ?B and e = EndOfFile
      and ks = "[''stop'', ''go'']" and p = 8, OF h2 h3]
  obtain m stats where
    r1: "ReadFileAndCountStats (\<lambda>_. Input ?B EndOfFile) ''in.txt'' = ([], Inr m)"
    and r2: "dom m = set (spec_tokens ?B)"
    and o: "\<forall>w \<in> set (spec_tokens ?B). m w = Some (of_nat (count_list (spec_tokens ?B) w))"
    and r3: "ConvertAndSortStats [''stop'', ''go''] 8 m = Some stats"
    and r4: "length stats = card (set (spec_tokens ?B))"
    and r5: "length ?B < 2 ^ 64 \<longrightarrow>
       (\<forall>w \<in> set (spec_tokens ?B).
            \<exists>c. m w = Some c \<and> unat c = count_list (spec_tokens ?B) w) \<and>
       sum_list (map (\<lambda>s. unat (count s)) stats) = length (spec_tokens ?B)"
    by blast
  have "''go'' \<in> set (spec_tokens ?B)" unfolding tokens_go by simp
  with o have "m ''go'' = Some (of_nat (count_list (spec_tokens ?B) ''go''))" by blast
  then have g: "m ''go'' = Some 2" unfolding tokens_go by simp
  from h1 g r1 r2 r3 r4 r5 have "ReadFileAndCountStats (\<lambda>_. Input ?B EndOfFile) ''in.txt'' = ([], Inr m) \<and>
      dom m = {''go'', ''stop''} \<and>
      m ''go'' = Some 2 \<and>
      ConvertAndSortStats [''stop'', ''go''] 8 m = Some stats \<and>
      length stats = 2 \<and>
      sum_list (map (\<lambda>s. unat (count s)) stats) = 3"
    by (simp only: d l c simp_thms)
  with h1 h2 h3 show ?thesis by (iprover intro: conjI exI)
qed

subsection \<open>C3: the parallel sort and a sequential sort agree\<close>

text \<open>
  C3. For every input sequence, of any length, and every budget, the parallel merge sort
  returns what \<^verbatim>\<open>std::sort\<close> returns on the whole sequence, and what any
  sequential sort under the same comparator returns: any function whose result is a
  permutation of its argument in which no element is \<^verbatim>\<open>operator<\<close> an earlier one.
\<close>

theorem ParallelMergeSort_sequential:
  "ParallelMergeSort xs N = Some (std_sort xs) \<and>
   (\<forall>seq. (\<forall>zs. mset (seq zs) = mset zs \<and> sorted_wrt (\<lambda>a b. \<not> operator_less b a) (seq zs))
      \<longrightarrow> ParallelMergeSort xs N = Some (seq xs))"
proof -
  have "seq xs = std_sort xs"
    if "\<forall>zs. mset (seq zs) = mset zs \<and> sorted_wrt (\<lambda>a b. \<not> operator_less b a) (seq zs)" for seq
    using that by (intro std_sort_unique) (simp_all add: not_less_is_spec_ordered)
  then show ?thesis by (simp add: ParallelMergeSort_std_sort)
qed

text \<open>
  The theorem with the insertion sort as the sequential sort, at two records.
\<close>

theorem ParallelMergeSort_sequential_witness:
  "(\<forall>zs. mset (std_sort zs) = mset zs \<and> sorted_wrt (\<lambda>a b. \<not> operator_less b a) (std_sort zs)) \<and>
   ParallelMergeSort [\<lparr>word = ''b'', count = 1\<rparr>, \<lparr>word = ''a'', count = 1\<rparr>] 8
     = Some (std_sort [\<lparr>word = ''b'', count = 1\<rparr>, \<lparr>word = ''a'', count = 1\<rparr>])"
proof -
  have h: "\<forall>zs. mset (std_sort zs) = mset zs \<and> sorted_wrt (\<lambda>a b. \<not> operator_less b a) (std_sort zs)"
    by (simp add: mset_std_sort sorted_std_sort not_less_is_spec_ordered)
  from ParallelMergeSort_sequential [of "[\<lparr>word = ''b'', count = 1\<rparr>, \<lparr>word = ''a'', count = 1\<rparr>]" 8]
  have "ParallelMergeSort [\<lparr>word = ''b'', count = 1\<rparr>, \<lparr>word = ''a'', count = 1\<rparr>] 8
     = Some (std_sort [\<lparr>word = ''b'', count = 1\<rparr>, \<lparr>word = ''a'', count = 1\<rparr>])"
    using h by blast
  with h show ?thesis by blast
qed

subsection \<open>C4: when the sorter sorts sequentially\<close>

text \<open>
  C4, as the code has it. The sorter takes the sequential case exactly when the segment
  has at most 1024 elements or the budget is below 2. There it returns the sequentially
  sorted segment. Otherwise the budget is at least 2, it splits the segment at
  \<open>length xs div 2\<close>, sorts each half with the budget less 2 (which does not wrap
  around), and merges the two results.
\<close>

theorem ParallelMergeSort_cases:
  "(sequential_case (length xs) N \<longleftrightarrow> length xs \<le> 1024 \<or> unat N < 2) \<and>
   (sequential_case (length xs) N \<longrightarrow> ParallelMergeSort xs N = Some (std_sort xs)) \<and>
   (\<not> sequential_case (length xs) N \<longrightarrow>
      unat (N - 2) = unat N - 2 \<and> 2 \<le> unat N \<and>
      ParallelMergeSort xs N =
        Option.bind (ParallelMergeSort (take (length xs div 2) xs) (N - 2)) (\<lambda>left.
        Option.bind (ParallelMergeSort (drop (length xs div 2) xs) (N - 2)) (\<lambda>right.
        Some (inplace_merge left right))))"
proof -
  have a: "N < 2 \<longleftrightarrow> unat N < 2"
    by (simp add: word_less_nat_alt)
  have b: "unat (N - 2) = unat N - 2" if "\<not> N < 2"
    using that by (simp add: unat_sub word_le_nat_alt not_less)
  have c: "ParallelMergeSort xs N = Some (std_sort xs)" if "sequential_case (length xs) N"
    using that by (subst ParallelMergeSort.simps) simp
  have d: "ParallelMergeSort xs N =
        Option.bind (ParallelMergeSort (take (length xs div 2) xs) (N - 2)) (\<lambda>left.
        Option.bind (ParallelMergeSort (drop (length xs div 2) xs) (N - 2)) (\<lambda>right.
        Some (inplace_merge left right)))" if "\<not> sequential_case (length xs) N"
    using that by (subst ParallelMergeSort.simps) (simp add: Let_def)
  show ?thesis
    using a b c d by (auto simp: sequential_case_def)
qed

text \<open>
  The theorem at a one-element segment (sequential) and at a segment of 1025 elements with
  budget 2 (split into 512 and 513 elements, budget 0).
\<close>

theorem ParallelMergeSort_cases_witness:
  "sequential_case (length [\<lparr>word = ''a'', count = 1\<rparr>]) 8 \<and>
   ParallelMergeSort [\<lparr>word = ''a'', count = 1\<rparr>] 8 = Some (std_sort [\<lparr>word = ''a'', count = 1\<rparr>]) \<and>
   \<not> sequential_case (length (replicate 1025 \<lparr>word = ''a'', count = 1\<rparr>)) 2 \<and>
   unat ((2 :: 32 word) - 2) = unat (2 :: 32 word) - 2 \<and>
   ParallelMergeSort (replicate 1025 \<lparr>word = ''a'', count = 1\<rparr>) 2 =
     Option.bind (ParallelMergeSort (replicate 512 \<lparr>word = ''a'', count = 1\<rparr>) 0) (\<lambda>left.
     Option.bind (ParallelMergeSort (replicate 513 \<lparr>word = ''a'', count = 1\<rparr>) 0) (\<lambda>right.
     Some (inplace_merge left right)))"
proof -
  have s: "sequential_case (length [\<lparr>word = ''a'', count = 1\<rparr>]) 8"
    by (simp add: sequential_case_def)
  have r: "\<not> sequential_case (length (replicate 1025 \<lparr>word = ''a'', count = 1\<rparr>)) 2"
    by (simp add: sequential_case_def)
  show ?thesis
    using s r ParallelMergeSort_cases [of "[\<lparr>word = ''a'', count = 1\<rparr>]" 8]
      ParallelMergeSort_cases [of "replicate 1025 \<lparr>word = ''a'', count = 1\<rparr>" 2]
    by simp
qed

text \<open>
  C4, as the specification states it, fails for a segment of exactly 1024 elements and
  budget 2: the length is not below 1024 and the budget is not below 2, and the sorter
  takes the sequential case.
\<close>

theorem sequential_case_at_threshold:
  "sequential_case 1024 2 \<noteq> ((1024 :: nat) < 1024 \<or> (2 :: 32 word) < 2)"
  by (simp add: sequential_case_def)

subsection \<open>C5: the example run\<close>

text \<open>
  C5. A run with two arguments whose input file holds \<open>The cat sat. The CAT sat!\<close>
  and whose output file can be written counts \<open>the\<close>, \<open>cat\<close> and \<open>sat\<close> twice
  each and, whatever the iteration order of the table, writes the three lines
  \<open>cat 2\<close>, \<open>sat 2\<close>, \<open>the 2\<close> in this order, each a word, one space, the
  count and a newline.
\<close>

theorem the_cat_sat:
  assumes "length (argv e) = 3"
    and "open_in e (argv e ! 1) = Input ''The cat sat. The CAT sat!'' EndOfFile"
    and "open_out e (argv e ! 2) = Output None"
    and "iterates (iteration e) (count_stream ''The cat sat. The CAT sat!'')"
  shows "count_stream ''The cat sat. The CAT sat!'' = [''the'' \<mapsto> 2, ''cat'' \<mapsto> 2, ''sat'' \<mapsto> 2] \<and>
    main e = Some \<lparr>exit_status = 0, cerr = [],
                    logged = [''read and count stats'', ''sort stats'', ''write stats''],
                    written = Some (''cat 2'' @ [newline] @ ''sat 2'' @ [newline] @ ''the 2'' @ [newline])\<rparr>"
proof -
  have it: "iterates (iteration e) [''the'' \<mapsto> 2, ''cat'' \<mapsto> 2, ''sat'' \<mapsto> 2]"
    using assms(4) by (simp only: table_the_cat)
  have "main e = Some \<lparr>exit_status = 0, cerr = [],
                    logged = [''read and count stats'', ''sort stats'', ''write stats''],
                    written = Some (''cat 2'' @ [newline] @ ''sat 2'' @ [newline] @ ''the 2'' @ [newline])\<rparr>"
    unfolding main_def ReadFileAndCountStats_def WriteStatsToFile_def
    using assms(1,2,3)
    by (simp add: table_the_cat sorted_the_cat [OF it] line_def char_of_eq_iff)
  then show ?thesis by (simp only: table_the_cat simp_thms)
qed

text \<open>
  The theorem for a run whose table is iterated in the order \<open>sat\<close>, \<open>the\<close>,
  \<open>cat\<close>.
\<close>

theorem the_cat_sat_witness:
  "main \<lparr>argv = [''./freq'', ''in.txt'', ''out.txt''],
         open_in = (\<lambda>_. Input ''The cat sat. The CAT sat!'' EndOfFile),
         open_out = (\<lambda>_. Output None),
         hardware_concurrency = 8,
         iteration = [''sat'', ''the'', ''cat'']\<rparr>
   = Some \<lparr>exit_status = 0, cerr = [],
           logged = [''read and count stats'', ''sort stats'', ''write stats''],
           written = Some (''cat 2'' @ [newline] @ ''sat 2'' @ [newline] @ ''the 2'' @ [newline])\<rparr>"
proof -
  let ?e = "\<lparr>argv = [''./freq'', ''in.txt'', ''out.txt''],
         open_in = (\<lambda>_. Input ''The cat sat. The CAT sat!'' EndOfFile),
         open_out = (\<lambda>_. Output None),
         hardware_concurrency = 8,
         iteration = [''sat'', ''the'', ''cat'']\<rparr>"
  have h1: "length (argv ?e) = 3" by simp
  have h2: "open_in ?e (argv ?e ! 1) = Input ''The cat sat. The CAT sat!'' EndOfFile" by simp
  have h3: "open_out ?e (argv ?e ! 2) = Output None" by simp
  have "iterates [''sat'', ''the'', ''cat''] (count_stream ''The cat sat. The CAT sat!'')"
    unfolding table_the_cat by (auto simp: iterates_def)
  then have h4: "iterates (iteration ?e) (count_stream ''The cat sat. The CAT sat!'')" by simp
  from the_cat_sat [OF h1 h2 h3 h4] show ?thesis by (rule conjunct2)
qed

subsection \<open>C6: sorting again changes nothing\<close>

text \<open>
  C6. The sorter's output is a fixed point of the sorter, with any budget, and every
  rearrangement of the input sorts to the same output.
\<close>

theorem ParallelMergeSort_idempotent:
  "\<exists>ys. ParallelMergeSort xs N = Some ys \<and> ParallelMergeSort ys M = Some ys \<and>
        (\<forall>zs. mset zs = mset xs \<longrightarrow> ParallelMergeSort zs M = Some ys)"
proof -
  have "ParallelMergeSort zs M = Some (std_sort xs)" if "mset zs = mset xs" for zs
    using std_sort_mset_cong [OF that] by (simp only: ParallelMergeSort_std_sort)
  moreover have "ParallelMergeSort (std_sort xs) M = Some (std_sort xs)"
    using std_sort_mset_cong [OF mset_std_sort, of xs]
    by (simp only: ParallelMergeSort_std_sort)
  moreover have "ParallelMergeSort xs N = Some (std_sort xs)"
    by (rule ParallelMergeSort_std_sort)
  ultimately show ?thesis by blast
qed

text \<open>
  The theorem at three records and a rearrangement of them.
\<close>

theorem ParallelMergeSort_idempotent_witness:
  "mset [\<lparr>word = ''a'', count = 5\<rparr>, \<lparr>word = ''the'', count = 2\<rparr>, \<lparr>word = ''cat'', count = 2\<rparr>]
   = mset [\<lparr>word = ''the'', count = 2\<rparr>, \<lparr>word = ''cat'', count = 2\<rparr>, \<lparr>word = ''a'', count = 5\<rparr>] \<and>
   (\<exists>ys. ParallelMergeSort [\<lparr>word = ''the'', count = 2\<rparr>, \<lparr>word = ''cat'', count = 2\<rparr>, \<lparr>word = ''a'', count = 5\<rparr>] 4 = Some ys \<and>
      ParallelMergeSort ys 0 = Some ys \<and>
      ParallelMergeSort [\<lparr>word = ''a'', count = 5\<rparr>, \<lparr>word = ''the'', count = 2\<rparr>, \<lparr>word = ''cat'', count = 2\<rparr>] 0 = Some ys)"
proof -
  let ?xs = "[\<lparr>word = ''the'', count = 2\<rparr>, \<lparr>word = ''cat'', count = 2\<rparr>, \<lparr>word = ''a'', count = 5\<rparr>]"
  let ?zs = "[\<lparr>word = ''a'', count = 5\<rparr>, \<lparr>word = ''the'', count = 2\<rparr>, \<lparr>word = ''cat'', count = 2\<rparr>]"
  have h: "mset ?zs = mset ?xs" by simp
  from ParallelMergeSort_idempotent [of ?xs 4 0] obtain ys where
    "ParallelMergeSort ?xs 4 = Some ys" "ParallelMergeSort ys 0 = Some ys"
    "\<forall>zs. mset zs = mset ?xs \<longrightarrow> ParallelMergeSort zs 0 = Some ys"
    by blast
  with h show ?thesis by blast
qed

subsection \<open>C7: the initial budget\<close>

text \<open>
  C7, as the code has it. The initial budget is the integer quotient of the hardware
  parallelism by two, with no lower bound of one; it equals \<open>max 1 (p div 2)\<close> exactly
  when the hardware parallelism is at least two.
\<close>

theorem initial_budget_is_half:
  "unat (initial_budget p) = unat p div 2 \<and>
   (unat (initial_budget p) = max 1 (unat p div 2) \<longleftrightarrow> 2 \<le> unat p)"
proof -
  have "unat (initial_budget p) = unat p div 2"
    by (simp add: initial_budget_def unat_div)
  then show ?thesis by (auto simp: max_def)
qed

text \<open>
  C7, as the specification states it, fails when one hardware thread is reported: the
  budget is 0, not 1.
\<close>

theorem initial_budget_not_max_one:
  "unat (initial_budget 1) \<noteq> max 1 (unat (1 :: 32 word) div 2)"
  by (simp add: initial_budget_def)

subsection \<open>The comparator is a strict total order\<close>

subsection \<open>C8: a read error is not reported\<close>

text \<open>
  C8. A run whose input path opens and then fails at the first read, as a directory does:
  nothing is written to \<^verbatim>\<open>std::cerr\<close>, all three phases are logged, an empty
  output file is written, and the exit status is 0. The exit status is 0 on every run
  (\<open>main_returns_zero\<close>), and a wrong argument count or a file that does not open is
  reported (\<open>main_usage_diagnostic\<close>, \<open>main_input_diagnostic\<close>,
  \<open>main_output_diagnostic\<close>); a read or write failure after the file was opened
  is not.
\<close>

theorem read_error_is_silent:
  "main \<lparr>argv = [''./freq'', ''/tmp'', ''out.txt''],
         open_in = (\<lambda>_. Input [] ReadError),
         open_out = (\<lambda>_. Output None),
         hardware_concurrency = 8,
         iteration = []\<rparr>
   = Some \<lparr>exit_status = 0, cerr = [],
           logged = [''read and count stats'', ''sort stats'', ''write stats''],
           written = Some []\<rparr>"
  by (simp add: main_def ReadFileAndCountStats_def WriteStatsToFile_def count_stream_def
      ConvertAndSortStats_std_sort flatten_def map_filter_simps std_sort_def)

subsection \<open>C9: the sorter terminates\<close>

text \<open>
  C9. The sorter returns for every segment and every budget. Where it recurses, the segment
  has more than 1024 elements, and both halves are non-empty and strictly shorter than the
  segment.
\<close>

theorem ParallelMergeSort_terminates:
  "(\<exists>ys. ParallelMergeSort xs N = Some ys) \<and>
   (\<not> sequential_case (length xs) N \<longrightarrow>
      1024 < length xs \<and>
      take (length xs div 2) xs \<noteq> [] \<and> length (take (length xs div 2) xs) < length xs \<and>
      drop (length xs div 2) xs \<noteq> [] \<and> length (drop (length xs div 2) xs) < length xs)"
proof -
  have halves: "1024 < length zs \<and>
      take (length zs div 2) zs \<noteq> [] \<and> length (take (length zs div 2) zs) < length zs \<and>
      drop (length zs div 2) zs \<noteq> [] \<and> length (drop (length zs div 2) zs) < length zs"
    if "\<not> sequential_case (length zs) M" for zs :: "StatsData list" and M
    using that by (auto simp: sequential_case_def)
  have returns: "\<exists>ys. ParallelMergeSort xs N = Some ys"
  proof (induction "length xs" arbitrary: xs N rule: less_induct)
    case less
    show ?case
    proof (cases "sequential_case (length xs) N")
      case True
      then show ?thesis by (subst ParallelMergeSort.simps) simp
    next
      case False
      from halves [OF False] less [of "take (length xs div 2) xs" "N - 2"]
      obtain left where l: "ParallelMergeSort (take (length xs div 2) xs) (N - 2) = Some left"
        by blast
      from halves [OF False] less [of "drop (length xs div 2) xs" "N - 2"]
      obtain right where r: "ParallelMergeSort (drop (length xs div 2) xs) (N - 2) = Some right"
        by blast
      show ?thesis
        using False by (subst ParallelMergeSort.simps) (simp add: l r Let_def)
    qed
  qed
  from returns halves [of xs N] show ?thesis by blast
qed

text \<open>
  The theorem at a segment of 1025 elements and budget 2: the halves have 512 and 513
  elements.
\<close>

theorem ParallelMergeSort_terminates_witness:
  "\<not> sequential_case (length (replicate 1025 \<lparr>word = ''a'', count = 1\<rparr>)) 2 \<and>
   (\<exists>ys. ParallelMergeSort (replicate 1025 \<lparr>word = ''a'', count = 1\<rparr>) 2 = Some ys) \<and>
   length (take (length (replicate 1025 \<lparr>word = ''a'', count = 1\<rparr>) div 2)
             (replicate 1025 \<lparr>word = ''a'', count = 1\<rparr>)) = 512 \<and>
   length (drop (length (replicate 1025 \<lparr>word = ''a'', count = 1\<rparr>) div 2)
             (replicate 1025 \<lparr>word = ''a'', count = 1\<rparr>)) = 513"
proof -
  have r: "\<not> sequential_case (length (replicate 1025 \<lparr>word = ''a'', count = 1\<rparr>)) 2"
    by (simp add: sequential_case_def)
  show ?thesis
    using r ParallelMergeSort_terminates [of "replicate 1025 \<lparr>word = ''a'', count = 1\<rparr>" 2]
    by simp
qed

subsection \<open>C10: the output depends on the input alone\<close>

text \<open>
  C10. Two runs with the same command line and the same files end the same way, with the
  same output file, whatever the iteration orders of their hash tables and whatever their
  hardware parallelism. (The two tasks of a split work on disjoint halves and are joined
  before the merge, so the sorter's result is the function \<^const>\<open>ParallelMergeSort\<close>
  of its input under every schedule.)
\<close>

theorem output_deterministic:
  assumes "argv e' = argv e" and "open_in e' = open_in e" and "open_out e' = open_out e"
    and "\<forall>bytes se. open_in e (argv e ! 1) = Input bytes se \<longrightarrow>
           iterates (iteration e) (count_stream bytes) \<and>
           iterates (iteration e') (count_stream bytes)"
  shows "main e' = main e"
proof (cases "open_in e (argv e ! 1)")
  case NoInput
  then show ?thesis
    using assms(1,2) by (simp add: main_def ReadFileAndCountStats_def)
next
  case (Input bytes se)
  with assms(4) have "iterates (iteration e) (count_stream bytes)"
    and "iterates (iteration e') (count_stream bytes)"
    by simp_all
  then have "ConvertAndSortStats (iteration e') (hardware_concurrency e') (count_stream bytes)
           = ConvertAndSortStats (iteration e) (hardware_concurrency e) (count_stream bytes)"
    by (intro ConvertAndSortStats_iteration)
  then show ?thesis
    using Input assms(1,2,3) by (simp add: main_def ReadFileAndCountStats_def)
qed

text \<open>
  The theorem at the input \<open>b a b\<close>, with the table iterated in both orders and
  hardware parallelism 2 and 16.
\<close>

theorem output_deterministic_witness:
  "iterates [''a'', ''b''] (count_stream ''b a b'') \<and>
   iterates [''b'', ''a''] (count_stream ''b a b'') \<and>
   main \<lparr>argv = [''./freq'', ''in.txt'', ''out.txt''],
         open_in = (\<lambda>_. Input ''b a b'' EndOfFile),
         open_out = (\<lambda>_. Output None),
         hardware_concurrency = 16,
         iteration = [''b'', ''a'']\<rparr>
   = main \<lparr>argv = [''./freq'', ''in.txt'', ''out.txt''],
         open_in = (\<lambda>_. Input ''b a b'' EndOfFile),
         open_out = (\<lambda>_. Output None),
         hardware_concurrency = 2,
         iteration = [''a'', ''b'']\<rparr>"
proof -
  let ?e = "\<lparr>argv = [''./freq'', ''in.txt'', ''out.txt''],
         open_in = (\<lambda>_. Input ''b a b'' EndOfFile),
         open_out = (\<lambda>_. Output None),
         hardware_concurrency = 2,
         iteration = [''a'', ''b'']\<rparr>"
  let ?e' = "\<lparr>argv = [''./freq'', ''in.txt'', ''out.txt''],
         open_in = (\<lambda>_. Input ''b a b'' EndOfFile),
         open_out = (\<lambda>_. Output None),
         hardware_concurrency = 16,
         iteration = [''b'', ''a'']\<rparr>"
  have t: "spec_tokens ''b a b'' = [''b'', ''a'', ''b'']" by code_simp
  have i1: "iterates [''a'', ''b''] (count_stream ''b a b'')"
    unfolding iterates_def dom_count_stream t by auto
  have i2: "iterates [''b'', ''a''] (count_stream ''b a b'')"
    unfolding iterates_def dom_count_stream t by auto
  have h1: "argv ?e' = argv ?e" by simp
  have h2: "open_in ?e' = open_in ?e" by simp
  have h3: "open_out ?e' = open_out ?e" by simp
  have h4: "\<forall>bytes se. open_in ?e (argv ?e ! 1) = Input bytes se \<longrightarrow>
           iterates (iteration ?e) (count_stream bytes) \<and>
           iterates (iteration ?e') (count_stream bytes)"
    using i1 i2 by simp
  from output_deterministic [OF h1 h2 h3 h4] i1 i2 show ?thesis by (iprover intro: conjI)
qed

end
